theory Spec2Isabelle
  imports Complex_Main
begin

section \<open>Python values and library functions used by the services\<close>

text \<open>
  The payloads built by the services are nested Python dictionaries whose leaves are
  integers and strings. A dictionary is an association list in insertion order, as a
  Python \<open>dict\<close> iterates.
\<close>

datatype pyval =
    PInt int
  | PStr string
  | PList "pyval list"
  | PDict "(string \<times> pyval) list"


text \<open>
  Python floats are idealised as real numbers. \<open>x % y\<close> on floats takes the sign of the
  divisor; every divisor in the source is a positive literal. \<open>int(x)\<close> truncates towards
  zero. The idealisation is exact arithmetic, so a printed digit can differ from what
  the binary floats of the code give: \<open>0.8\<close> and \<open>3.2\<close> are not binary fractions, and
  at the epoch \<open>1793793600\<close>, for instance, \<open>time.time() % 0.8\<close> is just below \<open>0.8\<close> in
  the code and \<open>0\<close> here. The properties below are about keys, structure and equality
  of payloads and fix no digit of a metric.
\<close>

definition float_mod :: "real \<Rightarrow> real \<Rightarrow> real" where
  "float_mod x y = x - y * of_int \<lfloor>x / y\<rfloor>"

definition int_of_float :: "real \<Rightarrow> int" where
  "int_of_float x = (if 0 \<le> x then \<lfloor>x\<rfloor> else \<lceil>x\<rceil>)"

definition digit_char :: "nat \<Rightarrow> char" where
  "digit_char d = ''0123456789abcdef'' ! (d mod 16)"

fun str_nat :: "nat \<Rightarrow> string" where
  "str_nat n = (if n < 10 then [digit_char n] else str_nat (n div 10) @ [digit_char (n mod 10)])"

definition str_int :: "int \<Rightarrow> string" where
  "str_int i = (if i < 0 then ''-'' @ str_nat (nat (- i)) else str_nat (nat i))"

definition round_half_even :: "real \<Rightarrow> int" where
  "round_half_even x =
     (let f = \<lfloor>x\<rfloor>; r = x - of_int f
      in if r < 1 / 2 then f else if 1 / 2 < r then f + 1 else if even f then f else f + 1)"

definition zero_pad :: "nat \<Rightarrow> string \<Rightarrow> string" where
  "zero_pad w s = replicate (w - length s) CHR ''0'' @ s"

text \<open>\<open>format_fixed p x\<close> is the text of \<open>f"{x:.pf}"\<close>: \<open>p\<close> digits after the point.\<close>

definition format_fixed :: "nat \<Rightarrow> real \<Rightarrow> string" where
  "format_fixed p x =
     (let m = nat (round_half_even (\<bar>x\<bar> * 10 ^ p));
          body = str_nat (m div 10 ^ p) @
                 (if p = 0 then [] else ''.'' @ zero_pad p (str_nat (m mod 10 ^ p)))
      in (if x < 0 then ''-'' else []) @ body)"

subsection \<open>\<open>json.dumps\<close> with its default arguments\<close>

definition json_escape_char :: "char \<Rightarrow> string" where
  "json_escape_char c =
     (if c = CHR 0x5C then [CHR 0x5C, CHR 0x5C]
      else if c = CHR 0x22 then [CHR 0x5C, CHR 0x22]
      else if c = CHR 0x08 then [CHR 0x5C, CHR ''b'']
      else if c = CHR 0x0C then [CHR 0x5C, CHR ''f'']
      else if c = CHR 0x0A then [CHR 0x5C, CHR ''n'']
      else if c = CHR 0x0D then [CHR 0x5C, CHR ''r'']
      else if c = CHR 0x09 then [CHR 0x5C, CHR ''t'']
      else if (of_char c :: nat) < 0x20 \<or> 0x7E < (of_char c :: nat)
        then [CHR 0x5C, CHR ''u'', CHR ''0'', CHR ''0'',
              digit_char (of_char c div 16), digit_char (of_char c mod 16)]
      else [c])"

definition json_string :: "string \<Rightarrow> string" where
  "json_string s = [CHR 0x22] @ concat (map json_escape_char s) @ [CHR 0x22]"

fun join :: "string \<Rightarrow> string list \<Rightarrow> string" where
  "join sep [] = []"
| "join sep [x] = x"
| "join sep (x # y # ys) = x @ sep @ join sep (y # ys)"

fun json_dumps :: "pyval \<Rightarrow> string"
  and json_elems :: "pyval list \<Rightarrow> string list"
  and json_items :: "(string \<times> pyval) list \<Rightarrow> string list" where
  "json_dumps (PInt i) = str_int i"
| "json_dumps (PStr s) = json_string s"
| "json_dumps (PList vs) = ''['' @ join '', '' (json_elems vs) @ '']''"
| "json_dumps (PDict kvs) = ''{'' @ join '', '' (json_items kvs) @ ''}''"
| "json_elems [] = []"
| "json_elems (v # vs) = json_dumps v # json_elems vs"
| "json_items [] = []"
| "json_items ((k, v) # kvs) = (json_string k @ '': '' @ json_dumps v) # json_items kvs"


section \<open>The clock\<close>

text \<open>
  The services read the wall clock through \<open>time.time()\<close> (seconds since the epoch) and
  through \<open>datetime.now().isoformat()\<close>. An instant of time carries both renderings.
  The clock is the stream of the readings still to come: each read returns the head
  and leaves the rest.
\<close>

record instant =
  epoch :: real
  iso :: string

type_synonym clock = "nat \<Rightarrow> instant"

definition advance :: "nat \<Rightarrow> clock \<Rightarrow> clock" where
  "advance k clk = (\<lambda>n. clk (n + k))"

definition time_time :: "clock \<Rightarrow> real \<times> clock" where
  "time_time clk = (epoch (clk 0), advance 1 clk)"

definition datetime_now_isoformat :: "clock \<Rightarrow> string \<times> clock" where
  "datetime_now_isoformat clk = (iso (clk 0), advance 1 clk)"

section \<open>The monitoring dashboard (\<open>monitoring/dashboard.py\<close>)\<close>

text \<open>
  A WebSocket object is compared by identity; the identity of the \<open>n\<close>-th connection
  accepted by the server is \<open>n\<close>.
\<close>

type_synonym websocket = nat

record FoundryDashboard =
  metrics :: pyval
  alerts :: "pyval list"
  performance_data :: pyval
  connected_websockets :: "websocket list"

definition FoundryDashboard_init :: FoundryDashboard where
  "FoundryDashboard_init =
     \<lparr>metrics = PDict [], alerts = [], performance_data = PDict [],
      connected_websockets = []\<rparr>"

subsection \<open>The metric generators\<close>

text \<open>
  Each generator evaluates its dictionary display from top to bottom, so the \<open>k\<close>-th
  call of \<open>time.time()\<close> in the text of the function returns the \<open>k\<close>-th reading of the
  clock. The function returns the dictionary and the clock that remains.
\<close>

definition infrastructure_metrics :: "clock \<Rightarrow> pyval \<times> clock" where
  "infrastructure_metrics clk =
     (PDict
       [(''anvil_rpc_latency'',
           PStr (format_fixed 1 (2 + float_mod (epoch (clk 0)) 5) @ ''ms'')),
        (''container_memory_usage'',
           PStr (format_fixed 1 (2.1 + float_mod (epoch (clk 1)) 0.5) @ ''GB'')),
        (''cpu_utilization'',
           PStr (format_fixed 0 (45 + float_mod (epoch (clk 2)) 20) @ ''%'')),
        (''disk_io'',
           PStr (format_fixed 0 (150 + float_mod (epoch (clk 3)) 50) @ ''MB/s'')),
        (''network_throughput'',
           PStr (format_fixed 1 (1.2 + float_mod (epoch (clk 4)) 0.8) @ ''GB/s'')),
        (''uptime'',
           PStr (str_int (int_of_float (float_mod (epoch (clk 5)) 86400 / 3600)) @ ''h '' @
                 str_int (int_of_float (float_mod (epoch (clk 6)) 3600 / 60)) @ ''m''))],
      advance 7 clk)"

definition development_metrics :: "clock \<Rightarrow> pyval \<times> clock" where
  "development_metrics clk =
     (PDict
       [(''active_projects'', PInt (15 + int_of_float (float_mod (epoch (clk 0)) 10))),
        (''contracts_compiled'', PInt (847 + int_of_float (float_mod (epoch (clk 1)) 100))),
        (''tests_executed'', PInt (2341 + int_of_float (float_mod (epoch (clk 2)) 200))),
        (''deployments_today'', PInt (23 + int_of_float (float_mod (epoch (clk 3)) 10))),
        (''gas_optimizations'', PInt (156 + int_of_float (float_mod (epoch (clk 4)) 50))),
        (''avg_compilation_time'',
           PStr (format_fixed 1 (3.2 + float_mod (epoch (clk 5)) 2) @ ''s''))],
      advance 6 clk)"

definition ai_metrics :: "clock \<Rightarrow> pyval \<times> clock" where
  "ai_metrics clk =
     (PDict
       [(''copilot_interactions'', PInt (342 + int_of_float (float_mod (epoch (clk 0)) 50))),
        (''security_scans'', PInt (89 + int_of_float (float_mod (epoch (clk 1)) 20))),
        (''code_suggestions'', PInt (567 + int_of_float (float_mod (epoch (clk 2)) 100))),
        (''cross_city_insights'', PInt (23 + int_of_float (float_mod (epoch (clk 3)) 10))),
        (''template_generations'', PInt (34 + int_of_float (float_mod (epoch (clk 4)) 15))),
        (''ai_model_status'', PStr ''active''),
        (''suggestion_acceptance_rate'',
           PStr (format_fixed 1 (70 + float_mod (epoch (clk 5)) 20) @ ''%''))],
      advance 6 clk)"

definition transport_metrics :: "clock \<Rightarrow> pyval \<times> clock" where
  "transport_metrics clk =
     (PDict
       [(''connected_cities'', PInt 3),
        (''messages_sent'', PInt (1234 + int_of_float (float_mod (epoch (clk 0)) 100))),
        (''messages_received'', PInt (987 + int_of_float (float_mod (epoch (clk 1)) 80))),
        (''transport_latency'',
           PStr (format_fixed 0 (85 + float_mod (epoch (clk 2)) 30) @ ''ms'')),
        (''knowledge_sync_rate'', PStr ''99.9%''),
        (''active_collaborations'', PInt (5 + int_of_float (float_mod (epoch (clk 3)) 3)))],
      advance 4 clk)"

definition integration_metrics :: "clock \<Rightarrow> pyval \<times> clock" where
  "integration_metrics clk =
     (PDict
       [(''district_status'', PStr ''manufacturing_active''),
        (''cognitive_load'',
           PStr (format_fixed 0 (60 + float_mod (epoch (clk 0)) 25) @ ''%'')),
        (''innovation_index'',
           PStr (format_fixed 1 (4.2 + float_mod (epoch (clk 1)) 0.8) @ ''/5.0'')),
        (''collaboration_efficiency'',
           PStr (format_fixed 0 (88 + float_mod (epoch (clk 2)) 10) @ ''%'')),
        (''knowledge_integration'', PStr ''optimal'')],
      advance 3 clk)"

subsection \<open>\<open>collect_metrics\<close>\<close>

text \<open>
  The method reads the timestamp, calls the five generators in order, stores the
  dictionary in \<open>self.metrics\<close> and returns it. None of the awaited coroutines suspends,
  so the whole call is one uninterrupted step.
\<close>

definition collect_metrics ::
  "clock \<Rightarrow> FoundryDashboard \<Rightarrow> pyval \<times> clock \<times> FoundryDashboard" where
  "collect_metrics clk self =
     (let (current_time, clk0) = datetime_now_isoformat clk;
          (infrastructure, clk1) = infrastructure_metrics clk0;
          (development, clk2) = development_metrics clk1;
          (ai_assistance, clk3) = ai_metrics clk2;
          (neural_transport, clk4) = transport_metrics clk3;
          (city_integration, clk5) = integration_metrics clk4;
          metrics = PDict
            [(''timestamp'', PStr current_time),
             (''infrastructure'', infrastructure),
             (''development'', development),
             (''ai_assistance'', ai_assistance),
             (''neural_transport'', neural_transport),
             (''city_integration'', city_integration)]
      in (metrics, clk5, self\<lparr>metrics := metrics\<rparr>))"


subsection \<open>The HTTP routes\<close>

datatype route = Root | Health | Metrics | Alerts

text \<open>The body of the landing page is a constant string and is not modelled.\<close>

datatype response = HTMLResponse | Json pyval

definition health_check :: "clock \<Rightarrow> pyval \<times> clock" where
  "health_check clk =
     (let (now, clk') = datetime_now_isoformat clk
      in (PDict [(''status'', PStr ''healthy''), (''timestamp'', PStr now)], clk'))"

definition get_alerts :: "FoundryDashboard \<Rightarrow> pyval" where
  "get_alerts self = PDict [(''alerts'', PList (alerts self))]"

fun http_get ::
  "route \<Rightarrow> clock \<Rightarrow> FoundryDashboard \<Rightarrow> response \<times> clock \<times> FoundryDashboard" where
  "http_get Root clk self = (HTMLResponse, clk, self)"
| "http_get Health clk self = (let (body, clk') = health_check clk in (Json body, clk', self))"
| "http_get Metrics clk self =
     (let (body, clk', self') = collect_metrics clk self in (Json body, clk', self'))"
| "http_get Alerts clk self = (Json (get_alerts self), clk, self)"

subsection \<open>The streaming endpoint \<open>/ws\<close>\<close>

text \<open>
  An exception with the text that \<open>str\<close> gives for it. \<open>CancelledError\<close> is not an
  \<open>Exception\<close>, so \<open>except Exception\<close> lets it pass; the other two are caught there.
\<close>

datatype py_exception = ValueError string | CancelledError | Exception string

fun caught_by_except :: "py_exception \<Rightarrow> bool" where
  "caught_by_except CancelledError = False"
| "caught_by_except _ = True"

fun str_exception :: "py_exception \<Rightarrow> string" where
  "str_exception (Exception msg) = msg"
| "str_exception (ValueError msg) = msg"
| "str_exception CancelledError = []"

text \<open>
  \<open>list.remove(x)\<close> deletes the first element equal to \<open>x\<close> and raises \<open>ValueError\<close>
  when there is none.
\<close>

fun list_remove :: "'a \<Rightarrow> 'a list \<Rightarrow> py_exception + 'a list" where
  "list_remove x [] = Inl (ValueError ''list.remove(x): x not in list'')"
| "list_remove x (y # ys) =
     (if y = x then Inr ys
      else case list_remove x ys of Inl e \<Rightarrow> Inl e | Inr zs \<Rightarrow> Inr (y # zs))"

text \<open>
  The \<open>finally\<close> clause of the endpoint, the only place where a viewer leaves the
  registry: the exception it raises, if any, and the dashboard it leaves.
\<close>

definition websocket_finally ::
  "websocket \<Rightarrow> FoundryDashboard \<Rightarrow> py_exception option \<times> FoundryDashboard" where
  "websocket_finally websocket self =
     (case list_remove websocket (connected_websockets self) of
        Inl e \<Rightarrow> (Some e, self)
      | Inr rest \<Rightarrow> (None, self\<lparr>connected_websockets := rest\<rparr>))"

text \<open>
  A handler of the endpoint is suspended either in \<open>send_text\<close> with the payload it is
  sending or in \<open>asyncio.sleep\<close> with the delay it asked for, or it has ended: by
  returning, or with an exception that leaves the coroutine.
\<close>

datatype handler = Sending string | Sleeping nat | Returned | Raised py_exception

datatype io = SendText string | Sleep nat

text \<open>
  The whole service: the dashboard object, the clock, the handlers by connection, the
  number of connections accepted so far, what each viewer's handler has completed on
  its connection, and the lines printed.
\<close>

record system =
  dash :: FoundryDashboard
  wall :: clock
  handlers :: "websocket \<Rightarrow> handler option"
  accepted :: nat
  transcript :: "websocket \<Rightarrow> io list"
  stdout :: "string list"

definition system_init :: "clock \<Rightarrow> system" where
  "system_init clk =
     \<lparr>dash = FoundryDashboard_init, wall = clk, handlers = (\<lambda>_. None), accepted = 0,
      transcript = (\<lambda>_. []), stdout = []\<rparr>"

text \<open>
  The loop body up to its first suspension: collect the metrics, serialise them and
  start sending.
\<close>

definition begin_iteration :: "websocket \<Rightarrow> system \<Rightarrow> system" where
  "begin_iteration websocket s =
     (let (metrics, clk', self') = collect_metrics (wall s) (dash s)
      in s\<lparr>dash := self', wall := clk',
            handlers := (handlers s)(websocket \<mapsto> Sending (json_dumps metrics))\<rparr>)"

text \<open>
  An exception \<open>e\<close> raised at a suspension point of the loop: \<open>except Exception\<close>
  prints it when it is one, then \<open>finally\<close> runs, and the handler ends.
\<close>

definition websocket_cleanup :: "websocket \<Rightarrow> py_exception \<Rightarrow> system \<Rightarrow> system" where
  "websocket_cleanup websocket e s =
     (let out = (if caught_by_except e
                 then stdout s @ [''WebSocket error: '' @ str_exception e] else stdout s);
          pending = (if caught_by_except e then Returned else Raised e);
          (raised, self') = websocket_finally websocket (dash s)
      in s\<lparr>dash := self', stdout := out,
            handlers := (handlers s)(websocket \<mapsto>
              (case raised of None \<Rightarrow> pending | Some e' \<Rightarrow> Raised e'))\<rparr>)"

text \<open>
  The events of the event loop. A handler runs without interruption between two
  suspension points, so each event is one atomic step; an event that the state does not
  allow has no successor.
\<close>

datatype event =
    Accept
  | SendReturns websocket
  | SendRaises websocket py_exception
  | SleepReturns websocket
  | SleepRaises websocket py_exception
  | Get route

fun step :: "event \<Rightarrow> system \<Rightarrow> system option" where
  "step Accept s =
     (let websocket = accepted s; self = dash s
      in Some (begin_iteration websocket
           (s\<lparr>accepted := Suc websocket,
              dash := self\<lparr>connected_websockets := connected_websockets self @ [websocket]\<rparr>\<rparr>)))"
| "step (SendReturns ws) s =
     (case handlers s ws of
        Some (Sending payload) \<Rightarrow>
          Some (s\<lparr>transcript := (transcript s)(ws := transcript s ws @ [SendText payload]),
                  handlers := (handlers s)(ws \<mapsto> Sleeping 5)\<rparr>)
      | _ \<Rightarrow> None)"
| "step (SendRaises ws e) s =
     (case handlers s ws of
        Some (Sending payload) \<Rightarrow> Some (websocket_cleanup ws e s)
      | _ \<Rightarrow> None)"
| "step (SleepReturns ws) s =
     (case handlers s ws of
        Some (Sleeping delay) \<Rightarrow>
          Some (begin_iteration ws
                 (s\<lparr>transcript := (transcript s)(ws := transcript s ws @ [Sleep delay])\<rparr>))
      | _ \<Rightarrow> None)"
| "step (SleepRaises ws e) s =
     (case handlers s ws of
        Some (Sleeping delay) \<Rightarrow> Some (websocket_cleanup ws e s)
      | _ \<Rightarrow> None)"
| "step (Get r) s =
     (let (resp, clk', self') = http_get r (wall s) (dash s)
      in Some (s\<lparr>dash := self', wall := clk'\<rparr>))"

fun run :: "event list \<Rightarrow> system \<Rightarrow> system option" where
  "run [] s = Some s"
| "run (e # es) s = (case step e s of None \<Rightarrow> None | Some s' \<Rightarrow> run es s')"


section \<open>The copilot's gas analysis (\<open>ai-copilot/foundry_copilot.py\<close>)\<close>

text \<open>The method logs one line and returns a dictionary literal.\<close>

definition gas_analysis :: "string \<Rightarrow> string list \<Rightarrow> pyval \<times> string list" where
  "gas_analysis code logged =
     (PDict
       [(''estimated_gas'', PInt 50000),
        (''optimization_potential'', PStr ''15%''),
        (''suggestions'', PList
           [PStr ''Use uint256 instead of smaller uints for gas efficiency'',
            PStr ''Pack struct variables to minimize storage slots'',
            PStr ''Consider using immutable variables where possible''])],
      logged @ [''Performing gas analysis...''])"

section \<open>Notions used to state the properties\<close>

definition nonempty_mapping :: "pyval \<Rightarrow> bool" where
  "nonempty_mapping v = (case v of PDict kvs \<Rightarrow> kvs \<noteq> [] | _ \<Rightarrow> False)"

definition has_category :: "pyval \<Rightarrow> string \<Rightarrow> bool" where
  "has_category payload c =
     (case payload of
        PDict items \<Rightarrow> (case map_of items c of Some v \<Rightarrow> nonempty_mapping v | None \<Rightarrow> False)
      | _ \<Rightarrow> False)"

text \<open>The keys of a payload: each top-level key with the keys below it.\<close>

fun keys_of :: "pyval \<Rightarrow> (string \<times> string list) list" where
  "keys_of (PDict items) =
     map (\<lambda>(k, v). (k, case v of PDict kvs \<Rightarrow> map fst kvs | _ \<Rightarrow> [])) items"
| "keys_of _ = []"

text \<open>A handler is running while it is suspended in the loop.\<close>

fun running :: "handler option \<Rightarrow> bool" where
  "running (Some (Sending _)) = True"
| "running (Some (Sleeping _)) = True"
| "running _ = False"

text \<open>
  Read off a trace of events: the handles connected so far are the identities given out
  by the \<open>Accept\<close> events, and a handle has left when an event of the trace raised an
  exception in its loop (the viewer went away, the delivery failed, or the handler was
  cancelled).
\<close>

fun is_Accept :: "event \<Rightarrow> bool" where
  "is_Accept Accept = True"
| "is_Accept _ = False"

fun ends :: "websocket \<Rightarrow> event \<Rightarrow> bool" where
  "ends h (SendRaises ws e) = (ws = h)"
| "ends h (SleepRaises ws e) = (ws = h)"
| "ends h _ = False"

definition live_handles :: "event list \<Rightarrow> websocket list" where
  "live_handles evs =
     filter (\<lambda>h. \<not> list_ex (ends h) evs) [0 ..< length (filter is_Accept evs)]"

text \<open>The handler that an event sends into a new iteration of its loop, if any.\<close>

fun starts_iteration :: "event \<Rightarrow> system \<Rightarrow> websocket option" where
  "starts_iteration Accept s = Some (accepted s)"
| "starts_iteration (SleepReturns ws) s = Some ws"
| "starts_iteration _ s = None"

text \<open>
  \<open>rounds ps\<close> is what a viewer sees of a handler that has pushed the payloads \<open>ps\<close>,
  sleeping five seconds after each; \<open>push_events n ws\<close> lets handler \<open>ws\<close> complete \<open>n\<close>
  sends, each followed by its sleep.
\<close>

definition rounds :: "string list \<Rightarrow> io list" where
  "rounds ps = concat (map (\<lambda>p. [SendText p, Sleep 5]) ps)"

fun push_events :: "nat \<Rightarrow> websocket \<Rightarrow> event list" where
  "push_events 0 ws = []"
| "push_events (Suc n) ws = SendReturns ws # SleepReturns ws # push_events n ws"

fun payloads :: "io list \<Rightarrow> string list" where
  "payloads [] = []"
| "payloads (SendText p # t) = p # payloads t"
| "payloads (Sleep d # t) = payloads t"

text \<open>The events after which a running handler has delivered its next payload.\<close>

definition next_push :: "system \<Rightarrow> websocket \<Rightarrow> event list" where
  "next_push s ws =
     (case handlers s ws of
        Some (Sending p) \<Rightarrow> [SendReturns ws]
      | Some (Sleeping d) \<Rightarrow> [SleepReturns ws, SendReturns ws]
      | _ \<Rightarrow> [])"

text \<open>Two instants and a clock that moves from the first to the second after 27 readings.\<close>

definition noon :: instant where
  "noon = \<lparr>epoch = 1793793600, iso = ''2026-11-04T12:00:00''\<rparr>"

definition later :: instant where
  "later = \<lparr>epoch = 1793793602.5, iso = ''2026-11-04T12:00:02.500000''\<rparr>"

definition moving_clock :: clock where
  "moving_clock = (\<lambda>n. if n < 27 then noon else later)"

definition frozen_clock :: clock where
  "frozen_clock = (\<lambda>n. noon)"


section \<open>Invariants of the service\<close>

text \<open>
  The snapshot that a call of \<open>collect_metrics\<close> returns when it reads the clock
  \<open>clk\<close>; the dashboard it is called on plays no part, as \<open>collect_metrics_eq\<close> shows.
\<close>

definition snapshot :: "clock \<Rightarrow> pyval" where
  "snapshot clk = fst (collect_metrics clk FoundryDashboard_init)"

text \<open>
  What holds in every state of the service: the registry has no duplicates, it holds
  exactly the connections whose handler is suspended in the loop, no identity beyond
  those given out is in use, and there are no alerts.
\<close>

definition invariant :: "system \<Rightarrow> bool" where
  "invariant s \<longleftrightarrow>
     distinct (connected_websockets (dash s)) \<and>
     (\<forall>h. h \<in> set (connected_websockets (dash s)) \<longleftrightarrow> running (handlers s h)) \<and>
     (\<forall>h. accepted s \<le> h \<longrightarrow> handlers s h = None) \<and>
     alerts (dash s) = []"

text \<open>
  How a state relates to the events that led to it.
\<close>

definition traced :: "event list \<Rightarrow> system \<Rightarrow> bool" where
  "traced evs s \<longleftrightarrow>
     accepted s = length (filter is_Accept evs) \<and>
     (\<forall>h. running (handlers s h) \<longleftrightarrow> h < accepted s \<and> \<not> list_ex (ends h) evs) \<and>
     (\<forall>h. list_ex (ends h) evs \<longrightarrow> h < accepted s)"

text \<open>
  A payload is a serialised snapshot when it is \<open>json.dumps\<close> of a result of
  \<open>collect_metrics\<close>.
\<close>

definition serialized_snapshot :: "string \<Rightarrow> bool" where
  "serialized_snapshot p \<longleftrightarrow> (\<exists>clk self. p = json_dumps (fst (collect_metrics clk self)))"

text \<open>
  What a handler has completed on its connection is a sequence of rounds, a send
  followed by a sleep of five seconds, up to the send it is in.
\<close>

definition paced :: "system \<Rightarrow> bool" where
  "paced s \<longleftrightarrow>
     (\<forall>ws. (\<forall>q \<in> set (payloads (transcript s ws)). serialized_snapshot q) \<and>
       (case handlers s ws of
          None \<Rightarrow> transcript s ws = []
        | Some (Sending p) \<Rightarrow> serialized_snapshot p \<and> (\<exists>ps. transcript s ws = rounds ps)
        | Some (Sleeping d) \<Rightarrow> d = 5 \<and> (\<exists>ps q. transcript s ws = rounds ps @ [SendText q])
        | Some _ \<Rightarrow> (\<exists>ps. transcript s ws = rounds ps \<or>
                        (\<exists>q. transcript s ws = rounds ps @ [SendText q]))))"

text \<open>
  A handler has ended when it returned or an exception left it.
\<close>

definition finished :: "handler option \<Rightarrow> bool" where
  "finished x \<longleftrightarrow> x = Some Returned \<or> (\<exists>e. x = Some (Raised e))"

text \<open>
  Concrete clocks, traces and states on which the properties are exercised. The clock
  \<open>ticking_clock\<close> shows 12:00:00 to the first call of \<open>collect_metrics\<close>, then
  12:00:02, 12:00:05 and 12:00:07 to the next three.
\<close>

definition at_second :: "nat \<Rightarrow> instant" where
  "at_second k =
     \<lparr>epoch = 1793793600 + of_nat k, iso = ''2026-11-04T12:00:0'' @ [digit_char k]\<rparr>"

definition ticking_clock :: clock where
  "ticking_clock =
     (\<lambda>n. if n < 27 then at_second 0 else if n < 54 then at_second 2
          else if n < 81 then at_second 5 else at_second 7)"

definition two_rounds :: "event list" where
  "two_rounds =
     [Accept, Accept, SendReturns 0, SendReturns 1,
      SleepReturns 0, SleepReturns 1, SendReturns 0, SendReturns 1]"

definition two_viewers :: system where
  "two_viewers = the (run two_rounds (system_init ticking_clock))"

definition churn :: "event list" where
  "churn = [Accept, Accept, SendReturns 0, SleepReturns 0,
            SendRaises 0 (Exception ''connection closed''), Get Metrics, Accept]"

definition after_churn :: system where
  "after_churn = the (run churn (system_init frozen_clock))"

definition one_sending :: system where
  "one_sending = the (run [Accept, Accept, SendReturns 1] (system_init ticking_clock))"

definition after_failure :: system where
  "after_failure = the (step (SendRaises 0 (Exception ''connection closed'')) one_sending)"

definition first_viewer :: system where
  "first_viewer = the (run [Accept] (system_init frozen_clock))"

definition two_frozen :: system where
  "two_frozen = the (run [Accept, Accept, SendReturns 0] (system_init frozen_clock))"

definition three_frozen :: system where
  "three_frozen = the (step Accept two_frozen)"

definition woken :: system where
  "woken = the (step (SleepReturns 0) three_frozen)"


section \<open>Properties\<close>

declare str_nat.simps [simp del]

lemmas generator_defs =
  infrastructure_metrics_def development_metrics_def ai_metrics_def
  transport_metrics_def integration_metrics_def datetime_now_isoformat_def

lemma collect_metrics_dash:
  "snd (snd (collect_metrics clk self)) = self\<lparr>metrics := fst (collect_metrics clk self)\<rparr>"
  by (simp add: collect_metrics_def generator_defs Let_def split: prod.split)

lemma collect_metrics_clock: "fst (snd (collect_metrics clk self)) = advance 27 clk"
  by (simp add: collect_metrics_def generator_defs Let_def advance_def fun_eq_iff add.commute
        split: prod.split)

lemma collect_metrics_reads:
  assumes "\<forall>k<27. clk1 k = clk2 k"
  shows "fst (collect_metrics clk1 self1) = fst (collect_metrics clk2 self2)"
proof -
  have eqs: "clk1 0 = clk2 0" "clk1 (Suc 0) = clk2 (Suc 0)" "clk1 (Suc (Suc 0)) = clk2 (Suc (Suc 0))"
    "clk1 2 = clk2 2" "clk1 3 = clk2 3" "clk1 4 = clk2 4" "clk1 5 = clk2 5" "clk1 6 = clk2 6" "clk1 7 = clk2 7" "clk1 8 = clk2 8" "clk1 9 = clk2 9" "clk1 10 = clk2 10" "clk1 11 = clk2 11" "clk1 12 = clk2 12" "clk1 13 = clk2 13" "clk1 14 = clk2 14" "clk1 15 = clk2 15" "clk1 16 = clk2 16" "clk1 17 = clk2 17" "clk1 18 = clk2 18" "clk1 19 = clk2 19" "clk1 20 = clk2 20" "clk1 21 = clk2 21" "clk1 22 = clk2 22" "clk1 23 = clk2 23" "clk1 24 = clk2 24" "clk1 25 = clk2 25" "clk1 26 = clk2 26"
    using assms by simp_all
  show ?thesis
    by (simp add: collect_metrics_def generator_defs Let_def advance_def eqs split: prod.split)
qed

lemma collect_metrics_keys:
  "keys_of (fst (collect_metrics clk1 self1)) = keys_of (fst (collect_metrics clk2 self2))"
  by (simp add: collect_metrics_def generator_defs Let_def split: prod.split)

lemma collect_metrics_eq:
  "collect_metrics clk self = (snapshot clk, advance 27 clk, self\<lparr>metrics := snapshot clk\<rparr>)"
proof -
  have "fst (collect_metrics clk self) = snapshot clk"
    unfolding snapshot_def by (rule collect_metrics_reads) simp
  with collect_metrics_dash [of clk self] collect_metrics_clock [of clk self]
  show ?thesis by (simp add: prod_eq_iff)
qed

lemma begin_iteration_fields:
  "dash (begin_iteration ws s) = (dash s)\<lparr>metrics := snapshot (wall s)\<rparr>"
  "wall (begin_iteration ws s) = advance 27 (wall s)"
  "handlers (begin_iteration ws s) =
     (handlers s)(ws \<mapsto> Sending (json_dumps (snapshot (wall s))))"
  "accepted (begin_iteration ws s) = accepted s"
  "transcript (begin_iteration ws s) = transcript s"
  "stdout (begin_iteration ws s) = stdout s"
  by (simp_all add: begin_iteration_def collect_metrics_eq)

lemma list_remove_absent:
  "x \<notin> set xs \<Longrightarrow> list_remove x xs = Inl (ValueError ''list.remove(x): x not in list'')"
  by (induction xs) auto

lemma list_remove_present: "x \<in> set xs \<Longrightarrow> list_remove x xs = Inr (remove1 x xs)"
  by (induction xs) auto

lemma websocket_finally_present:
  "ws \<in> set (connected_websockets self) \<Longrightarrow>
   websocket_finally ws self =
     (None, self\<lparr>connected_websockets := remove1 ws (connected_websockets self)\<rparr>)"
  by (simp add: websocket_finally_def list_remove_present)

lemma websocket_cleanup_fields:
  assumes "ws \<in> set (connected_websockets (dash s))"
  shows "dash (websocket_cleanup ws e s) =
           (dash s)\<lparr>connected_websockets := remove1 ws (connected_websockets (dash s))\<rparr>"
    and "handlers (websocket_cleanup ws e s) =
           (handlers s)(ws \<mapsto> (if caught_by_except e then Returned else Raised e))"
    and "wall (websocket_cleanup ws e s) = wall s"
    and "accepted (websocket_cleanup ws e s) = accepted s"
    and "transcript (websocket_cleanup ws e s) = transcript s"
  using assms by (simp_all add: websocket_cleanup_def websocket_finally_present Let_def)

lemma http_get_dash:
  "alerts (snd (snd (http_get r clk self))) = alerts self"
  "connected_websockets (snd (snd (http_get r clk self))) = connected_websockets self"
  by (cases r; simp add: collect_metrics_eq health_check_def datetime_now_isoformat_def
        split: prod.split)+

lemma running_iff:
  "running x \<longleftrightarrow> (\<exists>p. x = Some (Sending p)) \<or> (\<exists>d. x = Some (Sleeping d))"
  by (cases x rule: running.cases) auto

lemma invariant_init: "invariant (system_init clk)"
  by (simp add: invariant_def system_init_def FoundryDashboard_init_def)

lemma step_Accept:
  assumes "invariant s" and "step Accept s = Some s'"
  shows "invariant s'"
proof -
  have fresh: "accepted s \<notin> set (connected_websockets (dash s))"
    using assms(1) by (auto simp: invariant_def)
  from assms(2) have s': "s' = begin_iteration (accepted s)
      (s\<lparr>accepted := Suc (accepted s),
         dash := (dash s)\<lparr>connected_websockets := connected_websockets (dash s) @ [accepted s]\<rparr>\<rparr>)"
    by (simp add: Let_def)
  show ?thesis
    using assms(1) fresh unfolding s' invariant_def
    by (auto simp: begin_iteration_fields)
qed

lemma invariant_same_registry:
  assumes "invariant s"
    and "connected_websockets (dash s') = connected_websockets (dash s)"
    and "alerts (dash s') = alerts (dash s)"
    and "accepted s' = accepted s"
    and "\<And>h. running (handlers s' h) = running (handlers s h)"
    and "\<And>h. handlers s h = None \<Longrightarrow> handlers s' h = None"
  shows "invariant s'"
  using assms unfolding invariant_def by simp

lemma step_SendReturns:
  assumes "invariant s" and "step (SendReturns ws) s = Some s'"
  shows "invariant s'"
proof -
  from assms(2) obtain p where p: "handlers s ws = Some (Sending p)"
    and s': "s' = s\<lparr>transcript := (transcript s)(ws := transcript s ws @ [SendText p]),
                      handlers := (handlers s)(ws \<mapsto> Sleeping 5)\<rparr>"
    by (auto split: option.splits handler.splits)
  show ?thesis
    by (rule invariant_same_registry [OF assms(1)]) (auto simp: s' p)
qed

lemma step_SleepReturns:
  assumes "invariant s" and "step (SleepReturns ws) s = Some s'"
  shows "invariant s'"
proof -
  from assms(2) obtain d where d: "handlers s ws = Some (Sleeping d)"
    and s': "s' = begin_iteration ws
                    (s\<lparr>transcript := (transcript s)(ws := transcript s ws @ [Sleep d])\<rparr>)"
    by (auto split: option.splits handler.splits)
  show ?thesis
    by (rule invariant_same_registry [OF assms(1)]) (auto simp: s' d begin_iteration_fields)
qed

lemma cleanup_invariant:
  assumes "invariant s" and "running (handlers s ws)"
  shows "invariant (websocket_cleanup ws e s)"
proof -
  have reg: "ws \<in> set (connected_websockets (dash s))"
    using assms by (simp add: invariant_def)
  show ?thesis
    using assms unfolding invariant_def
    by (auto simp: websocket_cleanup_fields [OF reg])
qed

lemma step_Get:
  assumes "invariant s" and "step (Get r) s = Some s'"
  shows "invariant s'"
proof -
  obtain resp clk' self' where g: "http_get r (wall s) (dash s) = (resp, clk', self')"
    by (cases "http_get r (wall s) (dash s)")
  with http_get_dash [of r "wall s" "dash s"]
  have "alerts self' = alerts (dash s)"
       "connected_websockets self' = connected_websockets (dash s)" by simp_all
  moreover from assms(2) g have "s' = s\<lparr>dash := self', wall := clk'\<rparr>" by simp
  ultimately show ?thesis using assms(1) by (simp add: invariant_def)
qed

lemma invariant_step:
  assumes "invariant s" and "step e s = Some s'"
  shows "invariant s'"
proof (cases e)
  case Accept
  with assms show ?thesis by (simp only: step_Accept)
next
  case (SendReturns ws)
  with assms show ?thesis by (simp only: step_SendReturns)
next
  case (SendRaises ws x)
  with assms show ?thesis
    by (auto split: option.splits handler.splits intro!: cleanup_invariant)
next
  case (SleepReturns ws)
  with assms show ?thesis by (simp only: step_SleepReturns)
next
  case (SleepRaises ws x)
  with assms show ?thesis
    by (auto split: option.splits handler.splits intro!: cleanup_invariant)
next
  case (Get r)
  with assms show ?thesis by (simp only: step_Get)
qed

lemma invariant_run:
  "invariant s \<Longrightarrow> run evs s = Some s' \<Longrightarrow> invariant s'"
  by (induction evs arbitrary: s) (auto split: option.splits dest: invariant_step)

lemma run_append:
  "run (xs @ ys) s = (case run xs s of None \<Rightarrow> None | Some s' \<Rightarrow> run ys s')"
  by (induction xs arbitrary: s) (auto split: option.splits)

lemma traced_init: "traced [] (system_init clk)"
  by (simp add: traced_def system_init_def)

lemma traced_cleanup:
  assumes "invariant s" and "traced evs s" and "running (handlers s ws)"
    and "\<And>h. ends h e = (h = ws)" and "\<not> is_Accept e"
  shows "traced (evs @ [e]) (websocket_cleanup ws x s)"
proof -
  have reg: "ws \<in> set (connected_websockets (dash s))"
    using assms(1,3) by (simp add: invariant_def)
  show ?thesis
    using assms(2,3,5) unfolding traced_def
    by (auto simp: websocket_cleanup_fields [OF reg] assms(4))
qed

lemma traced_step:
  assumes "invariant s" and "traced evs s" and "step e s = Some s'"
  shows "traced (evs @ [e]) s'"
proof (cases e)
  case Accept
  with assms(3) have s': "s' = begin_iteration (accepted s)
      (s\<lparr>accepted := Suc (accepted s),
         dash := (dash s)\<lparr>connected_websockets := connected_websockets (dash s) @ [accepted s]\<rparr>\<rparr>)"
    by (simp add: Let_def)
  show ?thesis
    using assms(2) unfolding traced_def s' Accept
    by (auto simp: begin_iteration_fields less_Suc_eq)
next
  case (SendReturns ws)
  with assms(3) obtain p where p: "handlers s ws = Some (Sending p)"
    and s': "s' = s\<lparr>transcript := (transcript s)(ws := transcript s ws @ [SendText p]),
                      handlers := (handlers s)(ws \<mapsto> Sleeping 5)\<rparr>"
    by (auto split: option.splits handler.splits)
  have "running (handlers s' h) = running (handlers s h)" for h
    by (simp add: s' p)
  then show ?thesis
    using assms(2) unfolding traced_def SendReturns by (auto simp: s')
next
  case (SendRaises ws x)
  with assms(3) have live: "running (handlers s ws)" and s': "s' = websocket_cleanup ws x s"
    by (auto split: option.splits handler.splits)
  show ?thesis
    unfolding s' by (rule traced_cleanup [OF assms(1,2) live]) (auto simp: SendRaises)
next
  case (SleepReturns ws)
  with assms(3) obtain d where d: "handlers s ws = Some (Sleeping d)"
    and s': "s' = begin_iteration ws
                    (s\<lparr>transcript := (transcript s)(ws := transcript s ws @ [Sleep d])\<rparr>)"
    by (auto split: option.splits handler.splits)
  have "running (handlers s' h) = running (handlers s h)" for h
    by (simp add: s' d begin_iteration_fields)
  then show ?thesis
    using assms(2) unfolding traced_def SleepReturns by (auto simp: s' begin_iteration_fields)
next
  case (SleepRaises ws x)
  with assms(3) have live: "running (handlers s ws)" and s': "s' = websocket_cleanup ws x s"
    by (auto split: option.splits handler.splits)
  show ?thesis
    unfolding s' by (rule traced_cleanup [OF assms(1,2) live]) (auto simp: SleepRaises)
next
  case (Get r)
  with assms(3) have "handlers s' = handlers s" "accepted s' = accepted s"
    by (auto split: prod.splits)
  then show ?thesis
    using assms(2) unfolding traced_def Get by auto
qed

lemma run_snoc:
  "run (evs @ [e]) s = (case run evs s of None \<Rightarrow> None | Some s' \<Rightarrow> step e s')"
  by (simp add: run_append split: option.splits)

lemma reachable_facts:
  "run evs (system_init clk) = Some s \<Longrightarrow> invariant s \<and> traced evs s"
proof (induction evs arbitrary: s rule: rev_induct)
  case Nil
  then show ?case using invariant_init [of clk] traced_init [of clk] by simp
next
  case (snoc e evs)
  then obtain s0 where s0: "run evs (system_init clk) = Some s0" and e: "step e s0 = Some s"
    by (auto simp: run_snoc split: option.splits)
  from snoc.IH [OF s0] e show ?case
    by (blast intro: invariant_step traced_step)
qed

text \<open>
  In the service the \<open>finally\<close> clause always finds its connection in the registry:
  whenever an exception ends the handler of a connection in a reachable state, the
  removal raises nothing and deletes that connection.
\<close>

lemma finally_never_raises:
  assumes "run evs (system_init clk) = Some s" and "step e s = Some s'" and "ends ws e"
  shows "websocket_finally ws (dash s) =
           (None, (dash s)\<lparr>connected_websockets := remove1 ws (connected_websockets (dash s))\<rparr>)"
proof -
  from reachable_facts [OF assms(1)] have inv: "invariant s" by simp
  from assms(2,3) have "running (handlers s ws)"
    by (cases e) (auto split: option.splits handler.splits)
  with inv have "ws \<in> set (connected_websockets (dash s))" by (simp add: invariant_def)
  then show ?thesis by (rule websocket_finally_present)
qed

lemma registry_of_trace:
  assumes "invariant s" and "traced evs s"
  shows "set (connected_websockets (dash s)) = set (live_handles evs)"
  using assms unfolding invariant_def traced_def live_handles_def by auto

text \<open>
  C4. After every prefix of every sequence of events of the service, started from a
  fresh dashboard, the registry has no duplicates and holds exactly the connections
  accepted so far whose loop has not been ended by an exception.
\<close>

theorem registry_tracks_connections:
  assumes "run evs (system_init clk) = Some s" and "n \<le> length evs"
  shows "\<exists>s'. run (take n evs) (system_init clk) = Some s' \<and>
              distinct (connected_websockets (dash s')) \<and>
              set (connected_websockets (dash s')) = set (live_handles (take n evs))"
proof -
  have "run (take n evs @ drop n evs) (system_init clk) = Some s"
    using assms(1) by simp
  then obtain s' where s': "run (take n evs) (system_init clk) = Some s'"
    unfolding run_append by (auto split: option.splits)
  from reachable_facts [OF s'] registry_of_trace [of s' "take n evs"] s'
  show ?thesis by (auto simp: invariant_def)
qed

text \<open>
  C8. In every state the service can reach the alert list is empty, and \<open>GET /alerts\<close>
  answers with an empty list.
\<close>

theorem alerts_always_empty:
  assumes "run evs (system_init clk) = Some s"
  shows "alerts (dash s) = [] \<and>
         fst (http_get Alerts (wall s) (dash s)) = Json (PDict [(''alerts'', PList [])])"
  using reachable_facts [OF assms] by (simp add: invariant_def get_alerts_def)

lemma payloads_append: "payloads (xs @ ys) = payloads xs @ payloads ys"
  by (induction xs rule: payloads.induct) simp_all

lemma rounds_snoc: "rounds ps @ [SendText q, Sleep 5] = rounds (ps @ [q])"
  by (simp add: rounds_def)

lemma rounds_Cons: "rounds (p # ps) = SendText p # Sleep 5 # rounds ps"
  by (simp add: rounds_def)

lemma payloads_rounds: "payloads (rounds ps) = ps"
  by (induction ps) (simp_all add: rounds_def)

lemma snapshot_serialized: "serialized_snapshot (json_dumps (snapshot clk))"
  unfolding serialized_snapshot_def snapshot_def by blast

lemma pacedD:
  assumes "paced s"
  shows "\<And>q. q \<in> set (payloads (transcript s ws)) \<Longrightarrow> serialized_snapshot q"
    and "handlers s ws = None \<Longrightarrow> transcript s ws = []"
    and "handlers s ws = Some (Sending p) \<Longrightarrow>
           serialized_snapshot p \<and> (\<exists>ps. transcript s ws = rounds ps)"
    and "handlers s ws = Some (Sleeping d) \<Longrightarrow>
           d = 5 \<and> (\<exists>ps q. transcript s ws = rounds ps @ [SendText q])"
    and "\<exists>ps. transcript s ws = rounds ps \<or> (\<exists>q. transcript s ws = rounds ps @ [SendText q])"
proof -
  from assms have a: "\<forall>q \<in> set (payloads (transcript s ws)). serialized_snapshot q"
    and b: "(case handlers s ws of
          None \<Rightarrow> transcript s ws = []
        | Some (Sending p) \<Rightarrow> serialized_snapshot p \<and> (\<exists>ps. transcript s ws = rounds ps)
        | Some (Sleeping d) \<Rightarrow> d = 5 \<and> (\<exists>ps q. transcript s ws = rounds ps @ [SendText q])
        | Some _ \<Rightarrow> (\<exists>ps. transcript s ws = rounds ps \<or>
                        (\<exists>q. transcript s ws = rounds ps @ [SendText q])))"
    unfolding paced_def by blast+
  show "\<And>q. q \<in> set (payloads (transcript s ws)) \<Longrightarrow> serialized_snapshot q"
    using a by blast
  show "handlers s ws = None \<Longrightarrow> transcript s ws = []" using b by simp
  show "handlers s ws = Some (Sending p) \<Longrightarrow>
           serialized_snapshot p \<and> (\<exists>ps. transcript s ws = rounds ps)" using b by simp
  show "handlers s ws = Some (Sleeping d) \<Longrightarrow>
           d = 5 \<and> (\<exists>ps q. transcript s ws = rounds ps @ [SendText q])" using b by simp
  show "\<exists>ps. transcript s ws = rounds ps \<or> (\<exists>q. transcript s ws = rounds ps @ [SendText q])"
  proof (cases "handlers s ws")
    case None
    with b have "transcript s ws = rounds []" by (simp add: rounds_def)
    then show ?thesis by blast
  next
    case (Some x)
    with b show ?thesis by (cases x) auto
  qed
qed

lemma pacedI:
  assumes "\<And>ws q. q \<in> set (payloads (transcript s ws)) \<Longrightarrow> serialized_snapshot q"
    and "\<And>ws. handlers s ws = None \<Longrightarrow> transcript s ws = []"
    and "\<And>ws p. handlers s ws = Some (Sending p) \<Longrightarrow>
           serialized_snapshot p \<and> (\<exists>ps. transcript s ws = rounds ps)"
    and "\<And>ws d. handlers s ws = Some (Sleeping d) \<Longrightarrow>
           d = 5 \<and> (\<exists>ps q. transcript s ws = rounds ps @ [SendText q])"
    and "\<And>ws. \<exists>ps. transcript s ws = rounds ps \<or> (\<exists>q. transcript s ws = rounds ps @ [SendText q])"
  shows "paced s"
  unfolding paced_def
proof (intro allI conjI ballI)
  fix ws q assume "q \<in> set (payloads (transcript s ws))"
  then show "serialized_snapshot q" by (rule assms(1))
next
  fix ws
  show "case handlers s ws of
          None \<Rightarrow> transcript s ws = []
        | Some (Sending p) \<Rightarrow> serialized_snapshot p \<and> (\<exists>ps. transcript s ws = rounds ps)
        | Some (Sleeping d) \<Rightarrow> d = 5 \<and> (\<exists>ps q. transcript s ws = rounds ps @ [SendText q])
        | Some _ \<Rightarrow> (\<exists>ps. transcript s ws = rounds ps \<or>
                        (\<exists>q. transcript s ws = rounds ps @ [SendText q]))"
    using assms(2-5) [of ws] by (simp split: option.split handler.split)
qed

lemma paced_init: "paced (system_init clk)"
  by (simp add: paced_def system_init_def)

lemma paced_Accept:
  assumes "invariant s" and "paced s" and "step Accept s = Some s'"
  shows "paced s'"
proof -
  from assms(3) have s': "s' = begin_iteration (accepted s)
      (s\<lparr>accepted := Suc (accepted s),
         dash := (dash s)\<lparr>connected_websockets := connected_websockets (dash s) @ [accepted s]\<rparr>\<rparr>)"
    by (simp add: Let_def)
  have new: "handlers s (accepted s) = None"
    using assms(1) by (simp add: invariant_def)
  have h: "handlers s' = (handlers s)(accepted s \<mapsto> Sending (json_dumps (snapshot (wall s))))"
    and t: "transcript s' = transcript s"
    by (simp_all add: s' begin_iteration_fields)
  show ?thesis
  proof (rule pacedI)
    fix ws q assume "q \<in> set (payloads (transcript s' ws))"
    then show "serialized_snapshot q" using pacedD(1) [OF assms(2)] by (simp add: t)
  next
    fix ws assume "handlers s' ws = None"
    then show "transcript s' ws = []"
      using pacedD(2) [OF assms(2), of ws] by (simp add: h t split: if_splits)
  next
    fix ws p assume "handlers s' ws = Some (Sending p)"
    then show "serialized_snapshot p \<and> (\<exists>ps. transcript s' ws = rounds ps)"
      using pacedD(3) [OF assms(2), of ws p] pacedD(2) [OF assms(2) new]
      by (auto simp: h t snapshot_serialized rounds_def split: if_splits)
  next
    fix ws d assume "handlers s' ws = Some (Sleeping d)"
    then show "d = 5 \<and> (\<exists>ps q. transcript s' ws = rounds ps @ [SendText q])"
      using pacedD(4) [OF assms(2), of ws d] by (simp add: h t split: if_splits)
  next
    fix ws
    show "\<exists>ps. transcript s' ws = rounds ps \<or> (\<exists>q. transcript s' ws = rounds ps @ [SendText q])"
      using pacedD(5) [OF assms(2), of ws] by (simp add: t)
  qed
qed

lemma paced_SendReturns:
  assumes "paced s" and "step (SendReturns h) s = Some s'"
  shows "paced s'"
proof -
  from assms(2) obtain p where p: "handlers s h = Some (Sending p)"
    and s': "s' = s\<lparr>transcript := (transcript s)(h := transcript s h @ [SendText p]),
                      handlers := (handlers s)(h \<mapsto> Sleeping 5)\<rparr>"
    by (auto split: option.splits handler.splits)
  from pacedD(3) [OF assms(1) p] obtain ps where ps: "transcript s h = rounds ps"
    and sp: "serialized_snapshot p" by blast
  show ?thesis
  proof (rule pacedI)
    fix ws q assume "q \<in> set (payloads (transcript s' ws))"
    then show "serialized_snapshot q"
      using pacedD(1) [OF assms(1), of q ws] sp
      by (auto simp: s' payloads_append split: if_splits)
  next
    fix ws assume "handlers s' ws = None"
    then show "transcript s' ws = []"
      using pacedD(2) [OF assms(1), of ws] by (simp add: s' split: if_splits)
  next
    fix ws p' assume "handlers s' ws = Some (Sending p')"
    then show "serialized_snapshot p' \<and> (\<exists>ps. transcript s' ws = rounds ps)"
      using pacedD(3) [OF assms(1), of ws p'] by (simp add: s' split: if_splits)
  next
    fix ws d assume "handlers s' ws = Some (Sleeping d)"
    then show "d = 5 \<and> (\<exists>ps q. transcript s' ws = rounds ps @ [SendText q])"
      using pacedD(4) [OF assms(1), of ws d] ps by (auto simp: s' split: if_splits)
  next
    fix ws
    show "\<exists>ps. transcript s' ws = rounds ps \<or> (\<exists>q. transcript s' ws = rounds ps @ [SendText q])"
      using pacedD(5) [OF assms(1), of ws] ps by (auto simp: s')
  qed
qed

lemma paced_SleepReturns:
  assumes "paced s" and "step (SleepReturns h) s = Some s'"
  shows "paced s'"
proof -
  from assms(2) obtain d where d: "handlers s h = Some (Sleeping d)"
    and s': "s' = begin_iteration h
                    (s\<lparr>transcript := (transcript s)(h := transcript s h @ [Sleep d])\<rparr>)"
    by (auto split: option.splits handler.splits)
  from pacedD(4) [OF assms(1) d] obtain ps q where d5: "d = 5"
    and ps: "transcript s h = rounds ps @ [SendText q]" by blast
  have hs: "handlers s' = (handlers s)(h \<mapsto> Sending (json_dumps (snapshot (wall s))))"
    and t: "transcript s' = (transcript s)(h := rounds (ps @ [q]))"
    by (simp_all add: s' begin_iteration_fields ps d5 rounds_snoc [symmetric])
  have old: "set (payloads (rounds (ps @ [q]))) = set (payloads (transcript s h))"
    by (simp add: ps payloads_append payloads_rounds)
  show ?thesis
  proof (rule pacedI)
    fix ws q' assume "q' \<in> set (payloads (transcript s' ws))"
    then show "serialized_snapshot q'"
      using pacedD(1) [OF assms(1), of q' ws] old
      by (cases "ws = h") (simp_all add: t)
  next
    fix ws assume "handlers s' ws = None"
    then show "transcript s' ws = []"
      using pacedD(2) [OF assms(1), of ws] by (simp add: hs t split: if_splits)
  next
    fix ws p' assume "handlers s' ws = Some (Sending p')"
    then show "serialized_snapshot p' \<and> (\<exists>ps. transcript s' ws = rounds ps)"
      using pacedD(3) [OF assms(1), of ws p']
      by (auto simp: hs t snapshot_serialized split: if_splits)
  next
    fix ws d' assume "handlers s' ws = Some (Sleeping d')"
    then show "d' = 5 \<and> (\<exists>ps q. transcript s' ws = rounds ps @ [SendText q])"
      using pacedD(4) [OF assms(1), of ws d'] by (simp add: hs t split: if_splits)
  next
    fix ws
    show "\<exists>ps. transcript s' ws = rounds ps \<or> (\<exists>q. transcript s' ws = rounds ps @ [SendText q])"
      using pacedD(5) [OF assms(1), of ws] by (auto simp: t)
  qed
qed

lemma paced_cleanup:
  assumes "invariant s" and "paced s" and "running (handlers s h)"
  shows "paced (websocket_cleanup h e s)"
proof -
  have reg: "h \<in> set (connected_websockets (dash s))"
    using assms(1,3) by (simp add: invariant_def)
  note f = websocket_cleanup_fields [OF reg]
  show ?thesis
  proof (rule pacedI)
    fix ws q assume "q \<in> set (payloads (transcript (websocket_cleanup h e s) ws))"
    then show "serialized_snapshot q" using pacedD(1) [OF assms(2)] by (simp add: f)
  next
    fix ws assume "handlers (websocket_cleanup h e s) ws = None"
    then show "transcript (websocket_cleanup h e s) ws = []"
      using pacedD(2) [OF assms(2), of ws] by (simp add: f split: if_splits)
  next
    fix ws p assume "handlers (websocket_cleanup h e s) ws = Some (Sending p)"
    then show "serialized_snapshot p \<and> (\<exists>ps. transcript (websocket_cleanup h e s) ws = rounds ps)"
      using pacedD(3) [OF assms(2), of ws p] by (simp add: f split: if_splits)
  next
    fix ws d assume "handlers (websocket_cleanup h e s) ws = Some (Sleeping d)"
    then show "d = 5 \<and> (\<exists>ps q. transcript (websocket_cleanup h e s) ws = rounds ps @ [SendText q])"
      using pacedD(4) [OF assms(2), of ws d] by (simp add: f split: if_splits)
  next
    fix ws
    show "\<exists>ps. transcript (websocket_cleanup h e s) ws = rounds ps \<or>
               (\<exists>q. transcript (websocket_cleanup h e s) ws = rounds ps @ [SendText q])"
      using pacedD(5) [OF assms(2), of ws] by (simp add: f)
  qed
qed

lemma paced_Get:
  assumes "paced s" and "step (Get r) s = Some s'"
  shows "paced s'"
proof -
  from assms(2) have eq: "handlers s' = handlers s" "transcript s' = transcript s"
    by (auto split: prod.splits)
  show ?thesis
    unfolding paced_def eq by (rule assms(1) [unfolded paced_def])
qed

lemma paced_step:
  assumes "invariant s" and "paced s" and "step e s = Some s'"
  shows "paced s'"
proof (cases e)
  case Accept
  with assms show ?thesis by (simp only: paced_Accept)
next
  case (SendReturns ws)
  with assms show ?thesis by (simp only: paced_SendReturns)
next
  case (SendRaises ws x)
  with assms(3) have "running (handlers s ws)" and "s' = websocket_cleanup ws x s"
    by (auto split: option.splits handler.splits)
  with assms(1,2) show ?thesis by (simp only: paced_cleanup)
next
  case (SleepReturns ws)
  with assms show ?thesis by (simp only: paced_SleepReturns)
next
  case (SleepRaises ws x)
  with assms(3) have "running (handlers s ws)" and "s' = websocket_cleanup ws x s"
    by (auto split: option.splits handler.splits)
  with assms(1,2) show ?thesis by (simp only: paced_cleanup)
next
  case (Get r)
  with assms show ?thesis by (simp only: paced_Get)
qed

lemma paced_run:
  "invariant s \<Longrightarrow> paced s \<Longrightarrow> run evs s = Some s' \<Longrightarrow> paced s'"
proof (induction evs arbitrary: s)
  case Nil
  then show ?case by simp
next
  case (Cons e evs)
  then obtain s1 where s1: "step e s = Some s1" and r: "run evs s1 = Some s'"
    by (auto split: option.splits)
  from Cons.IH [OF invariant_step [OF Cons.prems(1) s1] paced_step [OF Cons.prems(1,2) s1] r]
  show ?case .
qed

lemma finished_step:
  assumes "invariant s" and "finished (handlers s ws)" and "step e s = Some s'"
  shows "finished (handlers s' ws)"
proof -
  have other: "h \<noteq> ws" if "running (handlers s h) \<or> handlers s h = None" for h
    using that assms(2) by (auto simp: finished_def)
  have "handlers s' ws = handlers s ws"
  proof (cases e)
    case Accept
    have "handlers s (accepted s) = None" using assms(1) by (simp add: invariant_def)
    then have "accepted s \<noteq> ws" using other by blast
    with assms(3) Accept show ?thesis by (auto simp: Let_def begin_iteration_fields)
  next
    case (SendReturns h)
    with assms(3) obtain p where p: "handlers s h = Some (Sending p)"
      and s': "s' = s\<lparr>transcript := (transcript s)(h := transcript s h @ [SendText p]),
                        handlers := (handlers s)(h \<mapsto> Sleeping 5)\<rparr>"
      by (auto split: option.splits handler.splits)
    from p have "h \<noteq> ws" using other by simp
    then show ?thesis by (simp add: s')
  next
    case (SendRaises h x)
    with assms(3) have live: "running (handlers s h)" and s': "s' = websocket_cleanup h x s"
      by (auto split: option.splits handler.splits)
    have reg: "h \<in> set (connected_websockets (dash s))"
      using assms(1) live by (simp add: invariant_def)
    from live have "h \<noteq> ws" using other by simp
    then show ?thesis by (simp add: s' websocket_cleanup_fields [OF reg])
  next
    case (SleepReturns h)
    with assms(3) obtain d where d: "handlers s h = Some (Sleeping d)"
      and s': "s' = begin_iteration h
                      (s\<lparr>transcript := (transcript s)(h := transcript s h @ [Sleep d])\<rparr>)"
      by (auto split: option.splits handler.splits)
    from d have "h \<noteq> ws" using other by simp
    then show ?thesis by (simp add: s' begin_iteration_fields)
  next
    case (SleepRaises h x)
    with assms(3) have live: "running (handlers s h)" and s': "s' = websocket_cleanup h x s"
      by (auto split: option.splits handler.splits)
    have reg: "h \<in> set (connected_websockets (dash s))"
      using assms(1) live by (simp add: invariant_def)
    from live have "h \<noteq> ws" using other by simp
    then show ?thesis by (simp add: s' websocket_cleanup_fields [OF reg])
  next
    case (Get r)
    with assms(3) show ?thesis by (auto split: prod.splits)
  qed
  with assms(2) show ?thesis by simp
qed

lemma finished_run:
  "invariant s \<Longrightarrow> finished (handlers s ws) \<Longrightarrow> run evs s = Some s' \<Longrightarrow>
   finished (handlers s' ws)"
proof (induction evs arbitrary: s)
  case Nil
  then show ?case by simp
next
  case (Cons e evs)
  then obtain s1 where s1: "step e s = Some s1" and r: "run evs s1 = Some s'"
    by (auto split: option.splits)
  from Cons.IH [OF invariant_step [OF Cons.prems(1) s1] finished_step [OF Cons.prems(1,2) s1] r]
  show ?case .
qed

lemma finished_not_running: "finished x \<Longrightarrow> \<not> running x"
  by (auto simp: finished_def)

lemma next_push_delivers:
  assumes "invariant s" and "h \<in> set (connected_websockets (dash s))"
  shows "\<exists>t p. run (next_push s h) s = Some t \<and>
               payloads (transcript t h) = payloads (transcript s h) @ [p]"
proof -
  from assms have "running (handlers s h)" by (simp add: invariant_def)
  then consider p where "handlers s h = Some (Sending p)"
    | d where "handlers s h = Some (Sleeping d)"
    by (auto simp: running_iff)
  then show ?thesis
  proof cases
    case 1
    then show ?thesis by (simp add: next_push_def payloads_append)
  next
    case 2
    then show ?thesis
      by (simp add: next_push_def payloads_append begin_iteration_fields)
  qed
qed

text \<open>
  C5. When \<open>send_text\<close> raises in the handler of a viewer, that viewer leaves the
  registry in the same step and nothing else leaves; the handlers of the other viewers
  and what they have received are untouched; and in every later state the viewer is
  still absent while each registered viewer's handler goes on to deliver its next
  payload.
\<close>

theorem delivery_failure_isolated:
  assumes "run evs (system_init clk) = Some s" and "step (SendRaises ws e) s = Some s'"
  shows "ws \<notin> set (connected_websockets (dash s')) \<and>
         set (connected_websockets (dash s')) = set (connected_websockets (dash s)) - {ws} \<and>
         (\<forall>h. h \<noteq> ws \<longrightarrow> handlers s' h = handlers s h \<and> transcript s' h = transcript s h) \<and>
         (\<forall>evs' s''. run evs' s' = Some s'' \<longrightarrow>
            ws \<notin> set (connected_websockets (dash s'')) \<and>
            (\<forall>h \<in> set (connected_websockets (dash s'')).
               \<exists>t p. run (next_push s'' h) s'' = Some t \<and>
                     payloads (transcript t h) = payloads (transcript s'' h) @ [p]))"
proof -
  from reachable_facts [OF assms(1)] have inv: "invariant s" by simp
  from assms(2) have live: "running (handlers s ws)" and s': "s' = websocket_cleanup ws e s"
    by (auto split: option.splits handler.splits)
  have reg: "ws \<in> set (connected_websockets (dash s))"
    using inv live by (simp add: invariant_def)
  note f = websocket_cleanup_fields [OF reg]
  have inv': "invariant s'" using invariant_step [OF inv assms(2)] .
  have d: "distinct (connected_websockets (dash s))" using inv by (simp add: invariant_def)
  have fin: "finished (handlers s' ws)" by (simp add: s' f finished_def)
  have later: "ws \<notin> set (connected_websockets (dash s'')) \<and>
            (\<forall>h \<in> set (connected_websockets (dash s'')).
               \<exists>t p. run (next_push s'' h) s'' = Some t \<and>
                     payloads (transcript t h) = payloads (transcript s'' h) @ [p])"
    if r: "run evs' s' = Some s''" for evs' s''
  proof -
    have i: "invariant s''" using invariant_run [OF inv' r] .
    have "\<not> running (handlers s'' ws)"
      using finished_run [OF inv' fin r] by (rule finished_not_running)
    with i have "ws \<notin> set (connected_websockets (dash s''))" by (simp add: invariant_def)
    with next_push_delivers [OF i] show ?thesis by blast
  qed
  have "ws \<notin> set (connected_websockets (dash s'))" using d by (simp add: s' f)
  moreover have "set (connected_websockets (dash s')) = set (connected_websockets (dash s)) - {ws}"
    using d by (simp add: s' f)
  moreover have "\<forall>h. h \<noteq> ws \<longrightarrow> handlers s' h = handlers s h \<and> transcript s' h = transcript s h"
    by (simp add: s' f)
  ultimately show ?thesis using later by blast
qed

lemma push_events_run:
  assumes "invariant s" and "handlers s ws = Some (Sending p)" and "serialized_snapshot p"
  shows "\<exists>s' ps. run (push_events n ws) s = Some s' \<and> length ps = n \<and>
           transcript s' ws = transcript s ws @ rounds ps \<and>
           (\<forall>q \<in> set ps. serialized_snapshot q) \<and>
           (\<exists>q. handlers s' ws = Some (Sending q)) \<and>
           ws \<in> set (connected_websockets (dash s'))"
  using assms
proof (induction n arbitrary: s p)
  case 0
  then show ?case by (simp add: rounds_def invariant_def)
next
  case (Suc n)
  define s1 where "s1 = s\<lparr>transcript := (transcript s)(ws := transcript s ws @ [SendText p]),
                           handlers := (handlers s)(ws \<mapsto> Sleeping 5)\<rparr>"
  define s2 where "s2 = begin_iteration ws
                    (s1\<lparr>transcript := (transcript s1)(ws := transcript s1 ws @ [Sleep 5])\<rparr>)"
  have st1: "step (SendReturns ws) s = Some s1" by (simp add: Suc.prems(2) s1_def)
  have st2: "step (SleepReturns ws) s1 = Some s2" by (simp add: s1_def s2_def)
  have i2: "invariant s2"
    using invariant_step [OF invariant_step [OF Suc.prems(1) st1] st2] .
  have h2: "handlers s2 ws = Some (Sending (json_dumps (snapshot (wall s1))))"
    by (simp add: s2_def begin_iteration_fields)
  have t2: "transcript s2 ws = transcript s ws @ rounds [p]"
    by (simp add: s2_def s1_def begin_iteration_fields rounds_def)
  from Suc.IH [OF i2 h2 snapshot_serialized] obtain s' ps where
    r: "run (push_events n ws) s2 = Some s'" and l: "length ps = n"
    and t: "transcript s' ws = transcript s2 ws @ rounds ps"
    and q: "\<forall>q \<in> set ps. serialized_snapshot q"
    and rest: "(\<exists>q. handlers s' ws = Some (Sending q))" "ws \<in> set (connected_websockets (dash s'))"
    by blast
  have "run (push_events (Suc n) ws) s = Some s'" using st1 st2 r by simp
  moreover have "length (p # ps) = Suc n" using l by simp
  moreover have "transcript s' ws = transcript s ws @ rounds (p # ps)"
    using t t2 by (simp add: rounds_def)
  moreover have "\<forall>q \<in> set (p # ps). serialized_snapshot q" using q Suc.prems(3) by simp
  ultimately show ?case using rest by blast
qed

lemma loop_ends_by_exception:
  assumes "step e s = Some s'" and "running (handlers s ws)" and "\<not> running (handlers s' ws)"
  shows "\<exists>x. e = SendRaises ws x \<or> e = SleepRaises ws x"
proof (cases e)
  case Accept
  with assms show ?thesis by (auto simp: Let_def begin_iteration_fields split: if_splits)
next
  case (SendReturns h)
  with assms show ?thesis by (auto split: option.splits handler.splits if_splits)
next
  case (SendRaises h x)
  show ?thesis
  proof (cases "h = ws")
    case True
    with SendRaises show ?thesis by simp
  next
    case False
    from assms(1) SendRaises have "handlers s' ws = handlers s ws"
      using False
      by (auto simp: websocket_cleanup_def Let_def split: option.splits handler.splits prod.splits)
    with assms(2,3) show ?thesis by simp
  qed
next
  case (SleepReturns h)
  with assms show ?thesis
    by (auto simp: begin_iteration_fields split: option.splits handler.splits if_splits)
next
  case (SleepRaises h x)
  show ?thesis
  proof (cases "h = ws")
    case True
    with SleepRaises show ?thesis by simp
  next
    case False
    from assms(1) SleepRaises have "handlers s' ws = handlers s ws"
      using False
      by (auto simp: websocket_cleanup_def Let_def split: option.splits handler.splits prod.splits)
    with assms(2,3) show ?thesis by simp
  qed
next
  case (Get r)
  with assms(1) have "handlers s' = handlers s" by (auto split: prod.splits)
  with assms(2,3) show ?thesis by simp
qed

lemma accept_registers:
  "\<exists>s'. step Accept s = Some s' \<and>
        accepted s \<in> set (connected_websockets (dash s')) \<and>
        handlers s' (accepted s) =
          Some (Sending (json_dumps (fst (collect_metrics (wall s) (dash s)))))"
proof -
  have "fst (collect_metrics (wall s) (dash s)) = snapshot (wall s)"
    by (simp add: collect_metrics_eq)
  then show ?thesis by (simp add: Let_def begin_iteration_fields)
qed

text \<open>
  C6. In every reachable state: accepting a connection registers it and starts sending
  a serialised snapshot to it; a handler that is sending completes any number \<open>n\<close> of
  rounds, each a serialised snapshot sent and then a sleep of five seconds, and is
  then still registered and sending; what any handler has completed is a sequence of
  such rounds, possibly followed by one more send; and a running handler stops running
  only through an exception raised in its own send or sleep. Time is counted by the
  delay the handler asks \<open>asyncio.sleep\<close> for.
\<close>

theorem push_loop_runs:
  assumes "run evs (system_init clk) = Some s"
  shows "(\<exists>s'. step Accept s = Some s' \<and>
            accepted s \<in> set (connected_websockets (dash s')) \<and>
            handlers s' (accepted s) =
              Some (Sending (json_dumps (fst (collect_metrics (wall s) (dash s)))))) \<and>
         (\<forall>ws p n. handlers s ws = Some (Sending p) \<longrightarrow>
            (\<exists>s' ps. run (push_events n ws) s = Some s' \<and> length ps = n \<and>
               transcript s' ws = transcript s ws @ rounds ps \<and>
               (\<forall>q \<in> set ps. serialized_snapshot q) \<and>
               (\<exists>q. handlers s' ws = Some (Sending q)) \<and>
               ws \<in> set (connected_websockets (dash s')))) \<and>
         (\<forall>ws. \<exists>ps. transcript s ws = rounds ps \<or>
                     (\<exists>q. transcript s ws = rounds ps @ [SendText q])) \<and>
         (\<forall>e s' ws. step e s = Some s' \<and> running (handlers s ws) \<and>
                     \<not> running (handlers s' ws) \<longrightarrow>
                     (\<exists>x. e = SendRaises ws x \<or> e = SleepRaises ws x))"
proof -
  from reachable_facts [OF assms] have inv: "invariant s" by simp
  have pc: "paced s"
    using paced_run [OF invariant_init paced_init assms] .
  have "\<exists>s' ps. run (push_events n ws) s = Some s' \<and> length ps = n \<and>
               transcript s' ws = transcript s ws @ rounds ps \<and>
               (\<forall>q \<in> set ps. serialized_snapshot q) \<and>
               (\<exists>q. handlers s' ws = Some (Sending q)) \<and>
               ws \<in> set (connected_websockets (dash s'))"
    if "handlers s ws = Some (Sending p)" for ws p n
    using push_events_run [OF inv that] pacedD(3) [OF pc that] by blast
  moreover have "\<exists>ps. transcript s ws = rounds ps \<or>
                     (\<exists>q. transcript s ws = rounds ps @ [SendText q])" for ws
    using pacedD(5) [OF pc] .
  moreover have "\<exists>x. e = SendRaises ws x \<or> e = SleepRaises ws x"
    if "step e s = Some s' \<and> running (handlers s ws) \<and> \<not> running (handlers s' ws)"
    for e s' ws
    using loop_ends_by_exception [of e s s' ws] that by blast
  ultimately show ?thesis using accept_registers [of s] by blast
qed

text \<open>
  C2, amended. Whenever a handler enters an iteration of its loop (on accepting its
  connection or on waking from its sleep) it starts sending the serialisation of the
  snapshot that its own call of \<open>collect_metrics\<close> returns; two handlers send equal
  payloads when the 27 clock readings of their two calls agree.
\<close>

theorem own_snapshot_per_viewer:
  assumes "step e1 s1 = Some t1" and "starts_iteration e1 s1 = Some h1"
    and "step e2 s2 = Some t2" and "starts_iteration e2 s2 = Some h2"
    and "\<forall>k<27. wall s1 k = wall s2 k"
  shows "handlers t1 h1 = Some (Sending (json_dumps (fst (collect_metrics (wall s1) (dash s1))))) \<and>
         handlers t2 h2 = Some (Sending (json_dumps (fst (collect_metrics (wall s2) (dash s2))))) \<and>
         handlers t1 h1 = handlers t2 h2"
proof -
  have own: "handlers t h = Some (Sending (json_dumps (snapshot (wall s))))"
    if "step e s = Some t" and "starts_iteration e s = Some h" for e s t h
    using that
    by (cases e) (auto simp: Let_def begin_iteration_fields split: option.splits handler.splits)
  have "snapshot (wall s1) = snapshot (wall s2)"
    unfolding snapshot_def using assms(5) by (rule collect_metrics_reads)
  with own [OF assms(1,2)] own [OF assms(3,4)] show ?thesis
    by (simp add: collect_metrics_eq)
qed

lemmas eval_defs = system_init_def FoundryDashboard_init_def begin_iteration_def
  collect_metrics_eq websocket_cleanup_def websocket_finally_def Let_def

lemma snapshot_head:
  "\<exists>rest. json_dumps (snapshot clk) =
      ''{'' @ json_string ''timestamp'' @ '': '' @ json_string (iso (clk 0)) @ rest"
  by (simp add: snapshot_def collect_metrics_def generator_defs Let_def)

lemma stamp_differs:
  assumes "\<And>r1 r2. json_string (iso (c1 0)) @ r1 \<noteq> json_string (iso (c2 0)) @ r2"
  shows "json_dumps (snapshot c1) \<noteq> json_dumps (snapshot c2)"
proof -
  obtain r1 r2 where
    "json_dumps (snapshot c1) = ''{'' @ json_string ''timestamp'' @ '': '' @ json_string (iso (c1 0)) @ r1"
    "json_dumps (snapshot c2) = ''{'' @ json_string ''timestamp'' @ '': '' @ json_string (iso (c2 0)) @ r2"
    using snapshot_head [of c1] snapshot_head [of c2] by blast
  then show ?thesis using assms [of r1 r2] by simp
qed

lemma ticking_stamps:
  "iso (ticking_clock 0) = ''2026-11-04T12:00:00''"
  "iso (advance 27 ticking_clock 0) = ''2026-11-04T12:00:02''"
  "iso (advance 27 (advance 27 ticking_clock) 0) = ''2026-11-04T12:00:05''"
  "iso (advance 27 (advance 27 (advance 27 ticking_clock)) 0) = ''2026-11-04T12:00:07''"
  by (simp_all add: ticking_clock_def advance_def at_second_def digit_char_def)

lemma two_viewers_run:
  "run two_rounds (system_init ticking_clock) = Some two_viewers"
  by (simp add: two_viewers_def two_rounds_def eval_defs)

lemma two_viewers_state:
  "connected_websockets (dash two_viewers) = [0, 1]"
  "transcript two_viewers 0 =
     [SendText (json_dumps (snapshot ticking_clock)), Sleep 5,
      SendText (json_dumps (snapshot (advance 27 (advance 27 ticking_clock))))]"
  "transcript two_viewers 1 =
     [SendText (json_dumps (snapshot (advance 27 ticking_clock))), Sleep 5,
      SendText (json_dumps (snapshot (advance 27 (advance 27 (advance 27 ticking_clock)))))]"
  by (simp_all add: two_viewers_def two_rounds_def eval_defs)

lemma stamps_differ:
  "json_string ''2026-11-04T12:00:00'' @ r1 \<noteq> json_string ''2026-11-04T12:00:02'' @ r2"
  "json_string ''2026-11-04T12:00:00'' @ r1 \<noteq> json_string ''2026-11-04T12:00:07'' @ r2"
  "json_string ''2026-11-04T12:00:05'' @ r1 \<noteq> json_string ''2026-11-04T12:00:02'' @ r2"
  "json_string ''2026-11-04T12:00:05'' @ r1 \<noteq> json_string ''2026-11-04T12:00:07'' @ r2"
  by (simp_all add: json_string_def json_escape_char_def)

text \<open>
  C2, as stated, fails. There is no common tick: every connection has a loop of its
  own, which calls \<open>collect_metrics\<close> itself. Under \<open>ticking_clock\<close> two viewers
  that stay connected through two rounds of sending receive two payloads each, and
  no payload of one equals a payload of the other.
\<close>

theorem viewers_get_different_payloads:
  "run two_rounds (system_init ticking_clock) = Some two_viewers \<and>
   connected_websockets (dash two_viewers) = [0, 1] \<and>
   length (payloads (transcript two_viewers 0)) = 2 \<and>
   length (payloads (transcript two_viewers 1)) = 2 \<and>
   set (payloads (transcript two_viewers 0)) \<inter> set (payloads (transcript two_viewers 1)) = {}"
proof -
  have "json_dumps (snapshot ticking_clock) \<noteq> json_dumps (snapshot (advance 27 ticking_clock))"
    "json_dumps (snapshot ticking_clock) \<noteq>
       json_dumps (snapshot (advance 27 (advance 27 (advance 27 ticking_clock))))"
    "json_dumps (snapshot (advance 27 (advance 27 ticking_clock))) \<noteq>
       json_dumps (snapshot (advance 27 ticking_clock))"
    "json_dumps (snapshot (advance 27 (advance 27 ticking_clock))) \<noteq>
       json_dumps (snapshot (advance 27 (advance 27 (advance 27 ticking_clock))))"
    by (rule stamp_differs, simp only: ticking_stamps stamps_differ, simp)+
  then show ?thesis
    unfolding two_viewers_state by (simp add: two_viewers_run)
qed

text \<open>
  C7. Two calls of \<open>collect_metrics\<close> that read the same 27 clock values return equal
  snapshots, whatever the dashboards they are called on; and the keys of the result,
  at both levels, are the same for every clock.
\<close>

theorem snapshot_function_of_time:
  assumes "\<forall>k<27. clk1 k = clk2 k"
  shows "fst (collect_metrics clk1 self1) = fst (collect_metrics clk2 self2) \<and>
         keys_of (fst (collect_metrics clk3 self3)) = keys_of (fst (collect_metrics clk1 self1))"
  using collect_metrics_reads [OF assms] collect_metrics_keys by blast

theorem snapshot_function_of_time_witness:
  "frozen_clock 27 \<noteq> moving_clock 27 \<and>
   fst (collect_metrics frozen_clock FoundryDashboard_init) =
     fst (collect_metrics moving_clock (FoundryDashboard_init\<lparr>connected_websockets := [0]\<rparr>)) \<and>
   keys_of (fst (collect_metrics ticking_clock FoundryDashboard_init)) =
     keys_of (fst (collect_metrics frozen_clock FoundryDashboard_init))"
proof -
  have h: "\<forall>k<27. frozen_clock k = moving_clock k"
    by (simp add: frozen_clock_def moving_clock_def)
  have d: "frozen_clock 27 \<noteq> moving_clock 27"
    by (simp add: frozen_clock_def moving_clock_def noon_def later_def)
  from snapshot_function_of_time [OF h] d show ?thesis by blast
qed

lemma churn_run: "run churn (system_init frozen_clock) = Some after_churn"
  by (simp add: after_churn_def churn_def eval_defs)

theorem registry_tracks_connections_witness:
  "run churn (system_init frozen_clock) = Some after_churn \<and>
   (\<exists>s'. run (take 5 churn) (system_init frozen_clock) = Some s' \<and>
         distinct (connected_websockets (dash s')) \<and>
         set (connected_websockets (dash s')) = set (live_handles (take 5 churn))) \<and>
   live_handles (take 5 churn) = [1] \<and> live_handles churn = [1, 2]"
proof -
  have l: "live_handles (take 5 churn) = [1]" "live_handles churn = [1, 2]"
    by (simp_all add: live_handles_def churn_def upt_rec)
  have n: "5 \<le> length churn" by (simp add: churn_def)
  from registry_tracks_connections [OF churn_run n] churn_run l show ?thesis by blast
qed

theorem alerts_always_empty_witness:
  "run churn (system_init frozen_clock) = Some after_churn \<and>
   alerts (dash after_churn) = [] \<and>
   fst (http_get Alerts (wall after_churn) (dash after_churn)) =
     Json (PDict [(''alerts'', PList [])])"
  using alerts_always_empty [OF churn_run] churn_run by blast

lemma one_sending_run:
  "run [Accept, Accept, SendReturns 1] (system_init ticking_clock) = Some one_sending"
  by (simp add: one_sending_def eval_defs)

lemma failure_step:
  "step (SendRaises 0 (Exception ''connection closed'')) one_sending = Some after_failure"
  by (simp add: after_failure_def one_sending_def eval_defs)

theorem delivery_failure_isolated_witness:
  "run [Accept, Accept, SendReturns 1] (system_init ticking_clock) = Some one_sending \<and>
   step (SendRaises 0 (Exception ''connection closed'')) one_sending = Some after_failure \<and>
   connected_websockets (dash one_sending) = [0, 1] \<and>
   connected_websockets (dash after_failure) = [1] \<and>
   0 \<notin> set (connected_websockets (dash after_failure)) \<and>
   set (connected_websockets (dash after_failure)) =
     set (connected_websockets (dash one_sending)) - {0} \<and>
   handlers after_failure 1 = handlers one_sending 1 \<and>
   transcript after_failure 1 = transcript one_sending 1 \<and>
   (\<exists>s'' t p. run [SleepReturns 1] after_failure = Some s'' \<and>
      0 \<notin> set (connected_websockets (dash s'')) \<and>
      1 \<in> set (connected_websockets (dash s'')) \<and>
      run (next_push s'' 1) s'' = Some t \<and>
      payloads (transcript t 1) = payloads (transcript s'' 1) @ [p])"
proof -
  have r: "connected_websockets (dash one_sending) = [0, 1]"
    by (simp add: one_sending_def eval_defs)
  have r': "connected_websockets (dash after_failure) = [1]"
    by (simp add: after_failure_def one_sending_def eval_defs)
  obtain s'' where s'': "run [SleepReturns 1] after_failure = Some s''"
    and reg: "1 \<in> set (connected_websockets (dash s''))"
    by (simp add: after_failure_def one_sending_def eval_defs)
  from delivery_failure_isolated [OF one_sending_run failure_step]
  have "0 \<notin> set (connected_websockets (dash after_failure))"
    and "set (connected_websockets (dash after_failure)) =
           set (connected_websockets (dash one_sending)) - {0}"
    and o: "\<forall>h. h \<noteq> 0 \<longrightarrow> handlers after_failure h = handlers one_sending h \<and>
                   transcript after_failure h = transcript one_sending h"
    and l: "\<forall>evs' s''. run evs' after_failure = Some s'' \<longrightarrow>
      0 \<notin> set (connected_websockets (dash s'')) \<and>
      (\<forall>h \<in> set (connected_websockets (dash s'')).
         \<exists>t p. run (next_push s'' h) s'' = Some t \<and>
               payloads (transcript t h) = payloads (transcript s'' h) @ [p])"
    by blast+
  moreover from o have "handlers after_failure 1 = handlers one_sending 1"
    "transcript after_failure 1 = transcript one_sending 1" by simp_all
  moreover from l s'' reg have "\<exists>s'' t p. run [SleepReturns 1] after_failure = Some s'' \<and>
      0 \<notin> set (connected_websockets (dash s'')) \<and>
      1 \<in> set (connected_websockets (dash s'')) \<and>
      run (next_push s'' 1) s'' = Some t \<and>
      payloads (transcript t 1) = payloads (transcript s'' 1) @ [p]"
    by blast
  ultimately show ?thesis using one_sending_run failure_step r r' by blast
qed

lemma first_viewer_run: "run [Accept] (system_init frozen_clock) = Some first_viewer"
  by (simp add: first_viewer_def eval_defs)

theorem push_loop_runs_witness:
  "run [Accept] (system_init frozen_clock) = Some first_viewer \<and>
   handlers first_viewer 0 = Some (Sending (json_dumps (snapshot frozen_clock))) \<and>
   (\<exists>s' ps. run (push_events 3 0) first_viewer = Some s' \<and> length ps = 3 \<and>
      transcript s' 0 = transcript first_viewer 0 @ rounds ps \<and>
      (\<forall>q \<in> set ps. serialized_snapshot q) \<and>
      (\<exists>q. handlers s' 0 = Some (Sending q)) \<and>
      0 \<in> set (connected_websockets (dash s')))"
proof -
  have h: "handlers first_viewer 0 = Some (Sending (json_dumps (snapshot frozen_clock)))"
    by (simp add: first_viewer_def eval_defs)
  from push_loop_runs [OF first_viewer_run] h first_viewer_run show ?thesis by blast
qed

text \<open>
  A run under a clock that stands still: a third viewer is accepted, then the first one
  wakes up, and both are sent the same payload.
\<close>

theorem own_snapshot_per_viewer_witness:
  "step Accept two_frozen = Some three_frozen \<and>
   starts_iteration Accept two_frozen = Some 2 \<and>
   step (SleepReturns 0) three_frozen = Some woken \<and>
   starts_iteration (SleepReturns 0) three_frozen = Some 0 \<and>
   wall two_frozen 0 = noon \<and> wall three_frozen 0 = noon \<and>
   handlers three_frozen 2 = handlers woken 0"
proof -
  have a: "step Accept two_frozen = Some three_frozen"
    by (simp add: three_frozen_def Let_def)
  have b: "starts_iteration Accept two_frozen = Some 2"
    by (simp add: two_frozen_def eval_defs)
  have c: "step (SleepReturns 0) three_frozen = Some woken"
    by (simp add: woken_def three_frozen_def two_frozen_def eval_defs)
  have d: "starts_iteration (SleepReturns 0) three_frozen = Some 0" by simp
  have e: "\<forall>k<27. wall two_frozen k = wall three_frozen k"
    by (simp add: three_frozen_def two_frozen_def eval_defs advance_def frozen_clock_def)
  have f: "wall two_frozen 0 = noon" "wall three_frozen 0 = noon"
    by (simp_all add: three_frozen_def two_frozen_def eval_defs advance_def frozen_clock_def)
  from own_snapshot_per_viewer [OF a b c d e] a b c d f show ?thesis by blast
qed

text \<open>
  C9. \<open>_gas_analysis\<close> returns the same dictionary of placeholder numbers and
  suggestions, and logs the same line, for every contract code.
\<close>

theorem gas_analysis_constant:
  "gas_analysis code1 logged = gas_analysis code2 logged \<and>
   fst (gas_analysis code1 logged) =
     PDict
       [(''estimated_gas'', PInt 50000),
        (''optimization_potential'', PStr ''15%''),
        (''suggestions'', PList
           [PStr ''Use uint256 instead of smaller uints for gas efficiency'',
            PStr ''Pack struct variables to minimize storage slots'',
            PStr ''Consider using immutable variables where possible''])]"
  by (simp add: gas_analysis_def)

text \<open>
  C10. \<open>collect_metrics\<close> leaves the dashboard with \<open>metrics\<close> set to the snapshot
  it returns and with every other field as it was.
\<close>

theorem collect_metrics_frame:
  "snd (snd (collect_metrics clk self)) = self\<lparr>metrics := fst (collect_metrics clk self)\<rparr> \<and>
   metrics (snd (snd (collect_metrics clk self))) = fst (collect_metrics clk self) \<and>
   alerts (snd (snd (collect_metrics clk self))) = alerts self \<and>
   performance_data (snd (snd (collect_metrics clk self))) = performance_data self \<and>
   connected_websockets (snd (snd (collect_metrics clk self))) = connected_websockets self"
  by (simp add: collect_metrics_eq)

text \<open>
  C1. Whatever the clock reads and whatever the dashboard holds (viewers connected or
  not), \<open>GET /metrics\<close> answers with the result of \<open>collect_metrics\<close>, and that
  result maps each of the five categories \<open>infrastructure\<close>, \<open>development\<close>,
  \<open>ai_assistance\<close>, \<open>neural_transport\<close> and \<open>city_integration\<close> to a non-empty
  dictionary.
\<close>

theorem metrics_categories:
  "fst (http_get Metrics clk self) = Json (fst (collect_metrics clk self)) \<and>
   has_category (fst (collect_metrics clk self)) ''infrastructure'' \<and>
   has_category (fst (collect_metrics clk self)) ''development'' \<and>
   has_category (fst (collect_metrics clk self)) ''ai_assistance'' \<and>
   has_category (fst (collect_metrics clk self)) ''neural_transport'' \<and>
   has_category (fst (collect_metrics clk self)) ''city_integration''"
  by (simp add: collect_metrics_def generator_defs has_category_def nonempty_mapping_def Let_def
        split: prod.split)

end
